theory Spec2Isabelle
  imports Main "HOL-Library.AList"
begin

section \<open>Status values\<close>

text \<open>
  \<open>leveldb::Status\<close>: success, or an error code with its message(s). The transaction code
  builds \<open>InvalidArgument\<close>, \<open>NotFound\<close> and \<open>Corruption\<close> (the latter with the key as second
  message); \<open>IOError\<close> stands for what the store itself may report.
\<close>

datatype Status =
    OK
  | NotFound string
  | Corruption string string
  | InvalidArgument string
  | IOError string

fun ok :: "Status \<Rightarrow> bool" where
  "ok OK = True"
| "ok _ = False"

fun IsNotFound :: "Status \<Rightarrow> bool" where
  "IsNotFound (NotFound _) = True"
| "IsNotFound _ = False"

fun IsCorruption :: "Status \<Rightarrow> bool" where
  "IsCorruption (Corruption _ _) = True"
| "IsCorruption _ = False"

fun IsInvalidArgument :: "Status \<Rightarrow> bool" where
  "IsInvalidArgument (InvalidArgument _) = True"
| "IsInvalidArgument _ = False"

section \<open>The store\<close>

text \<open>
  Modelled from the spec: the store (\<open>leveldb::DB\<close>, \<open>Snapshot\<close>, \<open>WriteBatch\<close>; only their
  callers are in \<open>db/transaction.cc\<close>). Section 6 of the specification gives the contract:
  \<open>Get(options{optional snapshot}, key) -> value | NotFound | error\<close>, reading at the
  snapshot or at the latest committed state; \<open>GetSnapshot() -> Handle | null\<close>, an immutable
  point-in-time view; \<open>Write(options, batch) -> status\<close>, applying an ordered batch of
  Put/Delete operations atomically; a batch accumulating Put/Delete operations in order,
  clearable.

  A view says what a read of each key reports. A snapshot handle is the view it froze. The
  store also keeps the list of calls made on it, so that "this operation did not touch the
  store" is a statement about the returned store.
\<close>

datatype get_result = Found string | Missing | Failed string

type_synonym view = "string \<Rightarrow> get_result"

datatype WriteOp = PutOp string string | DeleteOp string

datatype db_call =
    Call_GetSnapshot
  | Call_Get_at_snapshot string
  | Call_Get_latest string
  | Call_Write "WriteOp list"

record DB =
  latest :: view
  snapshot_unavailable :: bool
  write_result :: Status
  calls :: "db_call list"

text \<open>Whether a read of \<open>key\<close> in the view succeeds, and what it reads.\<close>

fun present :: "get_result \<Rightarrow> bool" where
  "present (Found _) = True"
| "present _ = False"

definition DB_GetSnapshot :: "DB \<Rightarrow> view option \<times> DB" where
  "DB_GetSnapshot db =
     ((if snapshot_unavailable db then None else Some (latest db)),
      db\<lparr>calls := calls db @ [Call_GetSnapshot]\<rparr>)"

text \<open>
  \<open>db->Get(options, key, &value)\<close>: the status, the contents of \<open>*value\<close> afterwards and
  the store. \<open>options.snapshot\<close> is the first argument; \<open>None\<close> (a null snapshot) reads the
  latest state. The contract does not say what a read that finds nothing does to \<open>*value\<close>;
  here it leaves it as it was.
\<close>

definition DB_Get :: "DB \<Rightarrow> view option \<Rightarrow> string \<Rightarrow> string \<Rightarrow> Status \<times> string \<times> DB" where
  "DB_Get db snapshot key val =
     (case snapshot of
        Some snap \<Rightarrow>
          (let db' = db\<lparr>calls := calls db @ [Call_Get_at_snapshot key]\<rparr> in
           case snap key of
             Found v \<Rightarrow> (OK, v, db')
           | Missing \<Rightarrow> (NotFound [], val, db')
           | Failed msg \<Rightarrow> (IOError msg, val, db'))
      | None \<Rightarrow>
          (let db' = db\<lparr>calls := calls db @ [Call_Get_latest key]\<rparr> in
           case latest db key of
             Found v \<Rightarrow> (OK, v, db')
           | Missing \<Rightarrow> (NotFound [], val, db')
           | Failed msg \<Rightarrow> (IOError msg, val, db')))"

fun apply_op :: "WriteOp \<Rightarrow> view \<Rightarrow> view" where
  "apply_op (PutOp k v) vw = vw(k := Found v)"
| "apply_op (DeleteOp k) vw = vw(k := Missing)"

definition apply_batch :: "WriteOp list \<Rightarrow> view \<Rightarrow> view" where
  "apply_batch batch vw = fold apply_op batch vw"

definition DB_Write :: "DB \<Rightarrow> WriteOp list \<Rightarrow> Status \<times> DB" where
  "DB_Write db batch =
     (write_result db,
      db\<lparr>latest := (if ok (write_result db) then apply_batch batch (latest db) else latest db),
         calls := calls db @ [Call_Write batch]\<rparr>)"

section \<open>The transaction (\<open>db/transaction.h\<close>, \<open>db/transaction.cc\<close>)\<close>

datatype TransactionState = ACTIVE | COMMITTED | ABORTED

record BufferEntry =
  entry_value :: string
  is_tombstone :: bool

definition BufferEntry_of :: "string \<Rightarrow> BufferEntry" where
  "BufferEntry_of v = \<lparr>entry_value = v, is_tombstone = False\<rparr>"

definition Tombstone :: BufferEntry where
  "Tombstone = \<lparr>entry_value = [], is_tombstone = True\<rparr>"

text \<open>
  The members \<open>db_\<close>, \<open>snapshot_\<close>, \<open>state_\<close>, \<open>read_set_\<close>, \<open>write_buffer_\<close> and
  \<open>write_batch_\<close> are the fields \<open>m_db\<close>, \<open>m_snapshot\<close>, ... (a name cannot end in an
  underscore here).
  \<open>m_db\<close> is a pointer: \<open>None\<close> is \<open>nullptr\<close>, \<open>Some a\<close> the address of the store. Every
  operation below takes the state of the store \<open>m_db\<close> points to at the time of the call
  (other transactions may have changed it in between), and returns it.
  \<open>m_read_set\<close> and \<open>m_write_buffer\<close> are the unordered containers, as a list of their
  elements; the loops of \<open>Commit\<close> go through the list from its head. \<open>m_write_buffer\<close> is read
  with \<open>map_of\<close> and written with \<open>AList.update\<close>, \<open>m_read_set\<close> is extended with
  \<open>List.insert\<close>. The containers of the code iterate in an order that their hash tables
  decide, which need not be the order in which these two functions build the lists: what
  is proved of an arbitrary transaction holds for every order of its lists, and nothing
  below depends on where a new element is put.
\<close>

record Transaction =
  m_db :: "nat option"
  m_snapshot :: "view option"
  m_state :: TransactionState
  m_read_set :: "string list"
  m_write_buffer :: "(string \<times> BufferEntry) list"
  m_write_batch :: "WriteOp list"

text \<open>The constructor \<open>Transaction(DB* db)\<close>; \<open>db\<close> is the state of the store at \<open>dbp\<close>.\<close>

definition Transaction_new :: "nat option \<Rightarrow> DB \<Rightarrow> Transaction \<times> DB" where
  "Transaction_new dbp db =
     (let t = \<lparr>m_db = dbp, m_snapshot = None, m_state = ACTIVE,
               m_read_set = [], m_write_buffer = [], m_write_batch = []\<rparr> in
      if dbp = None then (t\<lparr>m_state := ABORTED\<rparr>, db)
      else
        (case DB_GetSnapshot db of (snap, db') \<Rightarrow>
           if snap = None then (t\<lparr>m_snapshot := snap, m_state := ABORTED\<rparr>, db')
           else (t\<lparr>m_snapshot := snap\<rparr>, db')))"

definition CheckActive :: "Transaction \<Rightarrow> Status" where
  "CheckActive t =
     (if m_state t = ABORTED then InvalidArgument ''Transaction has been aborted''
      else if m_state t = COMMITTED then InvalidArgument ''Transaction has been committed''
      else if m_db t = None then InvalidArgument ''Database is null''
      else if m_snapshot t = None then InvalidArgument ''Snapshot is null''
      else OK)"

definition conflict_msg :: string where
  "conflict_msg = ''Read-write conflict: key modified by another transaction''"

text \<open>
  \<open>ValidateSnapshotIsolation(db, snapshot, key, value)\<close>: the status, \<open>*value\<close> afterwards
  and the store.
\<close>

definition ValidateSnapshotIsolation ::
    "DB \<Rightarrow> view option \<Rightarrow> string \<Rightarrow> string \<Rightarrow> Status \<times> string \<times> DB" where
  "ValidateSnapshotIsolation db snapshot key val =
     (case DB_Get db snapshot key [] of (snap_status, value_at_snapshot, db1) \<Rightarrow>
      case DB_Get db1 None key val of (current_status, val', db2) \<Rightarrow>
        (let existed_at_snapshot = ok snap_status;
             exists_now = ok current_status in
         if existed_at_snapshot \<noteq> exists_now then (Corruption conflict_msg key, val', db2)
         else if existed_at_snapshot \<and> exists_now \<and> value_at_snapshot \<noteq> val'
           then (Corruption conflict_msg key, val', db2)
         else (OK, val', db2)))"

definition Abort :: "Transaction \<Rightarrow> Status \<times> Transaction" where
  "Abort t =
     (if m_state t = COMMITTED
        then (InvalidArgument ''Cannot rollback: transaction already committed'', t)
      else if m_state t = ABORTED then (OK, t)
      else (OK, t\<lparr>m_state := ABORTED, m_write_buffer := [], m_write_batch := []\<rparr>))"

text \<open>
  \<open>Get(options, key, value)\<close>; \<open>options\<close> is not used by the code. The result is the status,
  \<open>*value\<close> afterwards, the transaction and the store.
\<close>

definition Get ::
    "Transaction \<Rightarrow> DB \<Rightarrow> string \<Rightarrow> string \<Rightarrow> Status \<times> string \<times> Transaction \<times> DB" where
  "Get t db key val =
     (let s = CheckActive t in
      if \<not> ok s then (s, val, t, db)
      else
        (case map_of (m_write_buffer t) key of
           Some e \<Rightarrow>
             if is_tombstone e then (NotFound ''Key deleted in transaction'', val, t, db)
             else (OK, entry_value e, t, db)
         | None \<Rightarrow>
             (case ValidateSnapshotIsolation db (m_snapshot t) key val of (s, val', db') \<Rightarrow>
                (let t1 = (if \<not> ok s then snd (Abort t) else t);
                     t2 = t1\<lparr>m_read_set := List.insert key (m_read_set t1)\<rparr>
                 in (s, val', t2, db')))))"

definition Put :: "Transaction \<Rightarrow> string \<Rightarrow> string \<Rightarrow> Status \<times> Transaction" where
  "Put t key val =
     (let s = CheckActive t in
      if \<not> ok s then (s, t)
      else (OK, t\<lparr>m_write_buffer := AList.update key (BufferEntry_of val) (m_write_buffer t),
                  m_write_batch := m_write_batch t @ [PutOp key val]\<rparr>))"

definition Delete :: "Transaction \<Rightarrow> string \<Rightarrow> Status \<times> Transaction" where
  "Delete t key =
     (let s = CheckActive t in
      if \<not> ok s then (s, t)
      else (OK, t\<lparr>m_write_buffer := AList.update key Tombstone (m_write_buffer t),
                  m_write_batch := m_write_batch t @ [DeleteOp key]\<rparr>))"

text \<open>
  The two validation loops of \<open>Commit\<close>: validate each key in turn, stop at the first status
  that is not ok.
\<close>

fun validate_keys :: "DB \<Rightarrow> view option \<Rightarrow> string list \<Rightarrow> Status \<times> DB" where
  "validate_keys db snapshot [] = (OK, db)"
| "validate_keys db snapshot (key # keys) =
     (case ValidateSnapshotIsolation db snapshot key [] of (s, _, db') \<Rightarrow>
        if \<not> ok s then (s, db') else validate_keys db' snapshot keys)"

text \<open>
  \<open>Commit()\<close>. The commit mutex serialises concurrent commits; one call runs here from
  start to end on the store it is given.
\<close>

definition Commit :: "Transaction \<Rightarrow> DB \<Rightarrow> Status \<times> Transaction \<times> DB" where
  "Commit t db =
     (let s = CheckActive t in
      if \<not> ok s then (s, t, db)
      else if m_write_buffer t = [] then (OK, t\<lparr>m_state := COMMITTED\<rparr>, db)
      else
        (case validate_keys db (m_snapshot t) (m_read_set t) of (s1, db1) \<Rightarrow>
           if \<not> ok s1 then (s1, t, db1)
           else
             (case validate_keys db1 (m_snapshot t) (map fst (m_write_buffer t)) of (s2, db2) \<Rightarrow>
                if \<not> ok s2 then (s2, t, db2)
                else
                  (case DB_Write db2 (m_write_batch t) of (s3, db3) \<Rightarrow>
                     if ok s3
                       then (s3, t\<lparr>m_state := COMMITTED, m_write_buffer := [],
                                   m_write_batch := []\<rparr>, db3)
                     else (s3, snd (Abort t), db3)))))"

section \<open>Sequences of operations\<close>

text \<open>
  A call on the transaction. \<open>step\<close> runs one call on the store as it is at that moment
  and keeps the transaction; \<open>run\<close> runs a list of calls, each paired with the state of the
  store when it is made, so that other transactions may change the store between any two
  calls.
\<close>

datatype operation =
    OpGet string
  | OpPut string string
  | OpDelete string
  | OpCommit
  | OpAbort

fun step :: "Transaction \<Rightarrow> DB \<times> operation \<Rightarrow> Transaction" where
  "step t (db, OpGet key) = fst (snd (snd (Get t db key [])))"
| "step t (db, OpPut key v) = snd (Put t key v)"
| "step t (db, OpDelete key) = snd (Delete t key)"
| "step t (db, OpCommit) = fst (snd (Commit t db))"
| "step t (db, OpAbort) = snd (Abort t)"

definition run :: "Transaction \<Rightarrow> (DB \<times> operation) list \<Rightarrow> Transaction" where
  "run t ops = foldl step t ops"

fun is_mutation :: "operation \<Rightarrow> bool" where
  "is_mutation (OpPut _ _) = True"
| "is_mutation (OpDelete _) = True"
| "is_mutation _ = False"

fun mutates :: "string \<Rightarrow> operation \<Rightarrow> bool" where
  "mutates k (OpPut k' _) = (k = k')"
| "mutates k (OpDelete k') = (k = k')"
| "mutates k _ = False"

section \<open>What the specification says, as definitions\<close>

text \<open>
  The validator of the specification (section 4.3): existence mismatch is a conflict,
  existence match with differing byte content is a conflict, otherwise there is none.
  The arguments are what a read of the key reports at the snapshot and now.
\<close>

fun content :: "get_result \<Rightarrow> string" where
  "content (Found v) = v"
| "content _ = []"

definition conflict_spec :: "get_result \<Rightarrow> get_result \<Rightarrow> bool" where
  "conflict_spec at_snapshot now =
     (present at_snapshot \<noteq> present now \<or>
      (present at_snapshot \<and> present now \<and> content at_snapshot \<noteq> content now))"

text \<open>
  Replaying a write batch (section 3): a Put stores a value entry under its key, a Delete
  stores a tombstone entry under its key; nothing is ever removed.
\<close>

fun replay_op :: "(string \<rightharpoonup> BufferEntry) \<Rightarrow> WriteOp \<Rightarrow> (string \<rightharpoonup> BufferEntry)" where
  "replay_op m (PutOp k v) = m(k \<mapsto> BufferEntry_of v)"
| "replay_op m (DeleteOp k) = m(k \<mapsto> Tombstone)"

definition replay :: "WriteOp list \<Rightarrow> (string \<rightharpoonup> BufferEntry)" where
  "replay batch = foldl replay_op Map.empty batch"

section \<open>What a commit reads\<close>

text \<open>
  Whether a key is in conflict between a snapshot and a store; the keys that a validation
  loop of \<open>Commit\<close> gets to (all keys up to and including the first one in conflict, where
  the loop returns); and the two reads that validating a key makes on the store.
\<close>

definition in_conflict :: "view \<Rightarrow> DB \<Rightarrow> string \<Rightarrow> bool" where
  "in_conflict snap db k = conflict_spec (snap k) (latest db k)"

fun validated_keys :: "(string \<Rightarrow> bool) \<Rightarrow> string list \<Rightarrow> string list" where
  "validated_keys P [] = []"
| "validated_keys P (k # ks) = (if P k then [k] else k # validated_keys P ks)"

definition reads_of :: "string list \<Rightarrow> db_call list" where
  "reads_of keys = concat (map (\<lambda>k. [Call_Get_at_snapshot k, Call_Get_latest k]) keys)"

section \<open>Concrete stores and transactions\<close>

text \<open>
  A store that holds exactly the given entries, hands out snapshots and accepts writes;
  and the transaction begun on it.
\<close>

definition view_of :: "(string \<times> string) list \<Rightarrow> view" where
  "view_of kvs = (\<lambda>k. case map_of kvs k of Some v \<Rightarrow> Found v | None \<Rightarrow> Missing)"

definition store_of :: "(string \<times> string) list \<Rightarrow> DB" where
  "store_of kvs =
     \<lparr>latest = view_of kvs, snapshot_unavailable = False, write_result = OK, calls = []\<rparr>"

definition begin_on :: "(string \<times> string) list \<Rightarrow> Transaction" where
  "begin_on kvs = fst (Transaction_new (Some 0) (store_of kvs))"

section \<open>Facts about the store\<close>

lemma present_content: "present r \<Longrightarrow> present r' \<Longrightarrow> (content r \<noteq> content r') = (r \<noteq> r')"
  by (cases r; cases r') auto

lemma DB_Get_snapshot:
  "DB_Get db (Some snap) key val =
     ((case snap key of Found v \<Rightarrow> OK | Missing \<Rightarrow> NotFound [] | Failed msg \<Rightarrow> IOError msg),
      (case snap key of Found v \<Rightarrow> v | _ \<Rightarrow> val),
      db\<lparr>calls := calls db @ [Call_Get_at_snapshot key]\<rparr>)"
  by (simp add: DB_Get_def Let_def split: get_result.splits)

lemma DB_Get_latest:
  "DB_Get db None key val =
     ((case latest db key of Found v \<Rightarrow> OK | Missing \<Rightarrow> NotFound [] | Failed msg \<Rightarrow> IOError msg),
      (case latest db key of Found v \<Rightarrow> v | _ \<Rightarrow> val),
      db\<lparr>calls := calls db @ [Call_Get_latest key]\<rparr>)"
  by (simp add: DB_Get_def Let_def split: get_result.splits)

section \<open>The state check\<close>

lemma CheckActive_OK_iff:
  "CheckActive t = OK \<longleftrightarrow>
     m_state t = ACTIVE \<and> m_db t \<noteq> None \<and> m_snapshot t \<noteq> None"
  by (cases "m_state t") (auto simp: CheckActive_def)

lemma ok_CheckActive: "ok (CheckActive t) \<longleftrightarrow> CheckActive t = OK"
  by (cases "CheckActive t") auto

lemma CheckActive_buffers [simp]:
  "CheckActive (t\<lparr>m_write_buffer := b, m_write_batch := w\<rparr>) = CheckActive t"
  by (simp add: CheckActive_def)

text \<open>Evaluating calls on concrete stores and transactions unfolds these definitions.\<close>

lemmas ev_defs = begin_on_def store_of_def Transaction_new_def DB_GetSnapshot_def Get_def Put_def
  Delete_def Commit_def Abort_def CheckActive_def ValidateSnapshotIsolation_def DB_Get_def
  DB_Write_def view_of_def BufferEntry_of_def Tombstone_def run_def conflict_spec_def
  apply_batch_def replay_def

section \<open>Abort\<close>

text \<open>
  C8. \<open>Abort()\<close> on an ABORTED transaction returns OK and changes nothing; on a COMMITTED
  transaction it fails with the invalid-state status (\<open>Status::InvalidArgument\<close> in the
  code) and changes nothing; on any other transaction it returns OK, clears the write buffer
  and the write batch and sets the state to ABORTED.
\<close>

theorem Abort_cases:
  "(m_state t = ABORTED \<longrightarrow> Abort t = (OK, t)) \<and>
   (m_state t = COMMITTED \<longrightarrow>
      IsInvalidArgument (fst (Abort t)) \<and> snd (Abort t) = t) \<and>
   (m_state t \<noteq> ABORTED \<and> m_state t \<noteq> COMMITTED \<longrightarrow>
      Abort t = (OK, t\<lparr>m_state := ABORTED, m_write_buffer := [], m_write_batch := []\<rparr>))"
  by (simp add: Abort_def)

theorem Abort_cases_witness:
  "Abort \<lparr>m_db = Some 0, m_snapshot = Some (\<lambda>k. Missing), m_state = ABORTED,
          m_read_set = [''r''], m_write_buffer = [], m_write_batch = []\<rparr>
     = (OK, \<lparr>m_db = Some 0, m_snapshot = Some (\<lambda>k. Missing), m_state = ABORTED,
          m_read_set = [''r''], m_write_buffer = [], m_write_batch = []\<rparr>)
   \<and> IsInvalidArgument (fst (Abort \<lparr>m_db = Some 0, m_snapshot = Some (\<lambda>k. Missing),
          m_state = COMMITTED, m_read_set = [], m_write_buffer = [], m_write_batch = []\<rparr>))
   \<and> Abort \<lparr>m_db = Some 0, m_snapshot = Some (\<lambda>k. Missing), m_state = ACTIVE,
          m_read_set = [''r''], m_write_buffer = [(''a'', BufferEntry_of ''1'')],
          m_write_batch = [PutOp ''a'' ''1'']\<rparr>
     = (OK, \<lparr>m_db = Some 0, m_snapshot = Some (\<lambda>k. Missing), m_state = ABORTED,
          m_read_set = [''r''], m_write_buffer = [], m_write_batch = []\<rparr>)"
  using
    Abort_cases [of "\<lparr>m_db = Some 0, m_snapshot = Some (\<lambda>k. Missing), m_state = ABORTED,
          m_read_set = [''r''], m_write_buffer = [], m_write_batch = []\<rparr>"]
    Abort_cases [of "\<lparr>m_db = Some 0, m_snapshot = Some (\<lambda>k. Missing), m_state = COMMITTED,
          m_read_set = [], m_write_buffer = [], m_write_batch = []\<rparr>"]
    Abort_cases [of "\<lparr>m_db = Some 0, m_snapshot = Some (\<lambda>k. Missing), m_state = ACTIVE,
          m_read_set = [''r''], m_write_buffer = [(''a'', BufferEntry_of ''1'')],
          m_write_batch = [PutOp ''a'' ''1'']\<rparr>"]
  by simp

lemma Abort_fields:
  "m_db (snd (Abort t)) = m_db t" "m_snapshot (snd (Abort t)) = m_snapshot t"
  "m_read_set (snd (Abort t)) = m_read_set t"
  "m_state (snd (Abort t)) = ACTIVE \<Longrightarrow> m_state t = ACTIVE"
  by (simp_all add: Abort_def split: if_splits)

lemma Abort_buffers:
  "(m_write_buffer (snd (Abort t)) = m_write_buffer t \<and>
    m_write_batch (snd (Abort t)) = m_write_batch t) \<or>
   (m_write_buffer (snd (Abort t)) = [] \<and> m_write_batch (snd (Abort t)) = [])"
  by (simp add: Abort_def)

section \<open>The validator\<close>

lemma Validate_eq:
  "ValidateSnapshotIsolation db (Some snap) key val =
     ((if conflict_spec (snap key) (latest db key) then Corruption conflict_msg key else OK),
      (case latest db key of Found v \<Rightarrow> v | _ \<Rightarrow> val),
      db\<lparr>calls := calls db @ [Call_Get_at_snapshot key, Call_Get_latest key]\<rparr>)"
  by (cases "snap key"; cases "latest db key")
     (simp_all add: ValidateSnapshotIsolation_def DB_Get_snapshot DB_Get_latest conflict_spec_def)

lemma Validate_latest:
  "latest (snd (snd (ValidateSnapshotIsolation db s key val))) = latest db"
  by (cases s; cases "latest db key"; cases "the s key")
     (simp_all add: ValidateSnapshotIsolation_def DB_Get_def Let_def)

text \<open>
  C1. For every key, \<open>ValidateSnapshotIsolation\<close> reports a conflict (a \<open>Corruption\<close>
  status) if and only if the key's existence differs between the snapshot view and the
  current view, or the key exists in both with different contents. In every other case it
  returns OK and \<open>*value\<close> holds the current value of the key; when the key is in neither
  view there is no current value and \<open>*value\<close> is what the caller passed in.
  As in the code (\<open>snap_status.ok()\<close>, \<open>current_status.ok()\<close>), a key exists in a view when
  the read of it there succeeds.
\<close>

theorem ValidateSnapshotIsolation_conflict_iff:
  "(IsCorruption (fst (ValidateSnapshotIsolation db (Some snap) key val)) \<longleftrightarrow>
      present (snap key) \<noteq> present (latest db key) \<or>
      (\<exists>a b. snap key = Found a \<and> latest db key = Found b \<and> a \<noteq> b)) \<and>
   (\<not> IsCorruption (fst (ValidateSnapshotIsolation db (Some snap) key val)) \<longrightarrow>
      fst (ValidateSnapshotIsolation db (Some snap) key val) = OK \<and>
      fst (snd (ValidateSnapshotIsolation db (Some snap) key val)) =
        (case latest db key of Found v \<Rightarrow> v | _ \<Rightarrow> val))"
  by (cases "snap key"; cases "latest db key") (simp_all add: Validate_eq conflict_spec_def)

theorem ValidateSnapshotIsolation_conflict_iff_witness:
  "IsCorruption (fst (ValidateSnapshotIsolation (store_of [(''k'', ''b'')])
       (Some (view_of [(''k'', ''a'')])) ''k'' []))
   \<and> IsCorruption (fst (ValidateSnapshotIsolation (store_of [])
       (Some (view_of [(''k'', ''a'')])) ''k'' []))
   \<and> fst (ValidateSnapshotIsolation (store_of [(''k'', ''a'')])
       (Some (view_of [(''k'', ''a'')])) ''k'' []) = OK
   \<and> fst (snd (ValidateSnapshotIsolation (store_of [(''k'', ''a'')])
       (Some (view_of [(''k'', ''a'')])) ''k'' [])) = ''a''"
  using
    ValidateSnapshotIsolation_conflict_iff
      [of "store_of [(''k'', ''b'')]" "view_of [(''k'', ''a'')]" "''k''" "[]"]
    ValidateSnapshotIsolation_conflict_iff
      [of "store_of []" "view_of [(''k'', ''a'')]" "''k''" "[]"]
    ValidateSnapshotIsolation_conflict_iff
      [of "store_of [(''k'', ''a'')]" "view_of [(''k'', ''a'')]" "''k''" "[]"]
  by (simp add: store_of_def view_of_def)

section \<open>Get\<close>

lemma Get_validated:
  assumes "CheckActive t = OK" and "map_of (m_write_buffer t) key = None"
    and "m_snapshot t = Some snap"
  shows "Get t db key val =
     (if conflict_spec (snap key) (latest db key)
      then (Corruption conflict_msg key,
            (case latest db key of Found v \<Rightarrow> v | _ \<Rightarrow> val),
            t\<lparr>m_state := ABORTED, m_write_buffer := [], m_write_batch := [],
              m_read_set := List.insert key (m_read_set t)\<rparr>,
            db\<lparr>calls := calls db @ [Call_Get_at_snapshot key, Call_Get_latest key]\<rparr>)
      else (OK,
            (case latest db key of Found v \<Rightarrow> v | _ \<Rightarrow> val),
            t\<lparr>m_read_set := List.insert key (m_read_set t)\<rparr>,
            db\<lparr>calls := calls db @ [Call_Get_at_snapshot key, Call_Get_latest key]\<rparr>))"
proof -
  from assms(1) have "m_state t = ACTIVE" by (simp add: CheckActive_OK_iff)
  then have "snd (Abort t) = t\<lparr>m_state := ABORTED, m_write_buffer := [], m_write_batch := []\<rparr>"
    by (simp add: Abort_def)
  with assms show ?thesis by (simp add: Get_def Validate_eq)
qed

lemma Get_absent_everywhere:
  assumes "CheckActive t = OK" and "map_of (m_write_buffer t) key = None"
    and "m_snapshot t = Some snap" and "snap key = Missing" and "latest db key = Missing"
  shows "fst (Get t db key val) = OK" and "fst (snd (Get t db key val)) = val"
  using assms by (simp_all add: Get_validated conflict_spec_def)

lemma Get_conflict:
  assumes "CheckActive t = OK" and "map_of (m_write_buffer t) key = None"
    and "m_snapshot t = Some snap" and "conflict_spec (snap key) (latest db key)"
  shows "m_state (fst (snd (snd (Get t db key val)))) = ABORTED"
    and "key \<in> set (m_read_set (fst (snd (snd (Get t db key val)))))"
  using assms by (simp_all add: Get_validated)

lemma Get_buffers:
  "(m_write_buffer (fst (snd (snd (Get t db key val)))) = m_write_buffer t \<and>
    m_write_batch (fst (snd (snd (Get t db key val)))) = m_write_batch t) \<or>
   (m_write_buffer (fst (snd (snd (Get t db key val)))) = [] \<and>
    m_write_batch (fst (snd (snd (Get t db key val)))) = [])"
  using Abort_buffers [of t]
  by (auto simp: Get_def Let_def split: option.splits prod.splits)

text \<open>
  C2. The specification says that \<open>Get\<close> of a key with no entry in the write buffer, absent at the
  snapshot and absent from the current store returns NotFound. The code does not: the
  validator sees no conflict and returns OK, and \<open>Get\<close> returns that status. Here the
  transaction is begun on an empty store and reads \<open>k\<close> from the empty store: the status
  is OK, \<open>*value\<close> is still what the caller passed in, and \<open>k\<close> joins the read set.
  \<open>Get_absent_everywhere\<close> above says the same of every such transaction and key.
\<close>

theorem Get_absent_key_returns_OK:
  "Get (begin_on []) (store_of []) ''k'' ''junk'' =
     (OK, ''junk'', (begin_on [])\<lparr>m_read_set := [''k'']\<rparr>,
      (store_of [])\<lparr>calls := [Call_Get_at_snapshot ''k'', Call_Get_latest ''k'']\<rparr>)
   \<and> CheckActive (begin_on []) = OK
   \<and> map_of (m_write_buffer (begin_on [])) ''k'' = None
   \<and> the (m_snapshot (begin_on [])) ''k'' = Missing
   \<and> latest (store_of []) ''k'' = Missing"
  by (simp add: ev_defs)

section \<open>Commit\<close>

lemma validate_keys_latest: "latest (snd (validate_keys db s keys)) = latest db"
proof (induction keys arbitrary: db)
  case Nil
  show ?case by simp
next
  case (Cons key keys)
  obtain st v db' where V: "ValidateSnapshotIsolation db s key [] = (st, v, db')"
    by (cases "ValidateSnapshotIsolation db s key []") auto
  have "latest db' = latest db"
    using Validate_latest [of db s key "[]"] by (simp add: V)
  with Cons.IH [of db'] show ?case by (simp add: V)
qed

lemma validate_keys_status:
  "fst (validate_keys db (Some snap) keys) =
     (case find (\<lambda>k. conflict_spec (snap k) (latest db k)) keys of
        None \<Rightarrow> OK
      | Some k \<Rightarrow> Corruption conflict_msg k)"
proof (induction keys arbitrary: db)
  case Nil
  show ?case by simp
next
  case (Cons key keys)
  show ?case
  proof (cases "conflict_spec (snap key) (latest db key)")
    case True
    then show ?thesis by (simp add: Validate_eq)
  next
    case False
    then show ?thesis
      using Cons.IH [of "db\<lparr>calls := calls db @ [Call_Get_at_snapshot key, Call_Get_latest key]\<rparr>"]
      by (simp add: Validate_eq)
  qed
qed

lemma validate_keys_clean:
  assumes "find (\<lambda>k. conflict_spec (snap k) (latest db k)) keys = None"
  shows "validate_keys db (Some snap) keys =
           (OK, db\<lparr>calls := calls db @
                   concat (map (\<lambda>k. [Call_Get_at_snapshot k, Call_Get_latest k]) keys)\<rparr>)"
  using assms
proof (induction keys arbitrary: db)
  case Nil
  show ?case by simp
next
  case (Cons key keys)
  let ?db' = "db\<lparr>calls := calls db @ [Call_Get_at_snapshot key, Call_Get_latest key]\<rparr>"
  from Cons.prems have nc: "\<not> conflict_spec (snap key) (latest db key)"
    and rest: "find (\<lambda>k. conflict_spec (snap k) (latest ?db' k)) keys = None"
    by (simp_all split: if_splits)
  from Cons.IH [OF rest] nc show ?case by (simp add: Validate_eq)
qed

lemma find_append:
  "find P (xs @ ys) = (case find P xs of None \<Rightarrow> find P ys | Some x \<Rightarrow> Some x)"
  by (induction xs) auto

lemma Commit_status:
  assumes "CheckActive t = OK" "m_write_buffer t \<noteq> []" "m_snapshot t = Some snap"
    "find (\<lambda>k. conflict_spec (snap k) (latest db k))
       (m_read_set t @ map fst (m_write_buffer t)) = Some k"
  shows "\<exists>db'. Commit t db = (Corruption conflict_msg k, t, db') \<and> latest db' = latest db"
proof -
  let ?P = "\<lambda>k. conflict_spec (snap k) (latest db k)"
  obtain s1 db1 where V1: "validate_keys db (Some snap) (m_read_set t) = (s1, db1)"
    by (cases "validate_keys db (Some snap) (m_read_set t)") auto
  obtain s2 db2 where
    V2: "validate_keys db1 (Some snap) (map fst (m_write_buffer t)) = (s2, db2)"
    by (cases "validate_keys db1 (Some snap) (map fst (m_write_buffer t))") auto
  have L1: "latest db1 = latest db"
    using validate_keys_latest [of db "Some snap" "m_read_set t"] by (simp add: V1)
  have L2: "latest db2 = latest db"
    using validate_keys_latest [of db1 "Some snap" "map fst (m_write_buffer t)"]
    by (simp add: V2 L1)
  have S1: "s1 = (case find ?P (m_read_set t) of None \<Rightarrow> OK | Some k \<Rightarrow> Corruption conflict_msg k)"
    using validate_keys_status [of db snap "m_read_set t"] by (simp add: V1)
  have S2: "s2 = (case find ?P (map fst (m_write_buffer t)) of
                    None \<Rightarrow> OK | Some k \<Rightarrow> Corruption conflict_msg k)"
    using validate_keys_status [of db1 snap "map fst (m_write_buffer t)"] by (simp add: V2 L1)
  show ?thesis
  proof (cases "find ?P (m_read_set t)")
    case None
    with assms(4) have "find ?P (map fst (m_write_buffer t)) = Some k"
      by (simp add: find_append)
    with None S1 S2 have "Commit t db = (Corruption conflict_msg k, t, db2)"
      using assms(1-3) by (simp add: Commit_def V1 V2)
    with L2 show ?thesis by simp
  next
    case (Some k')
    with assms(4) have "k' = k" by (simp add: find_append)
    with Some S1 have "Commit t db = (Corruption conflict_msg k, t, db1)"
      using assms(1-3) by (simp add: Commit_def V1)
    with L1 show ?thesis by simp
  qed
qed

lemma Commit_clean:
  assumes "CheckActive t = OK" and "m_write_buffer t \<noteq> []" and "m_snapshot t = Some snap"
    and "find (\<lambda>k. conflict_spec (snap k) (latest db k))
           (m_read_set t @ map fst (m_write_buffer t)) = None"
  shows "Commit t db =
     (write_result db,
      (if ok (write_result db)
       then t\<lparr>m_state := COMMITTED, m_write_buffer := [], m_write_batch := []\<rparr>
       else t\<lparr>m_state := ABORTED, m_write_buffer := [], m_write_batch := []\<rparr>),
      db\<lparr>latest := (if ok (write_result db) then apply_batch (m_write_batch t) (latest db)
                     else latest db),
         calls := calls db @
           concat (map (\<lambda>k. [Call_Get_at_snapshot k, Call_Get_latest k]) (m_read_set t)) @
           concat (map (\<lambda>k. [Call_Get_at_snapshot k, Call_Get_latest k])
                     (map fst (m_write_buffer t))) @
           [Call_Write (m_write_batch t)]\<rparr>)"
proof -
  let ?P = "\<lambda>k. conflict_spec (snap k) (latest db k)"
  let ?reads = "\<lambda>keys. concat (map (\<lambda>k. [Call_Get_at_snapshot k, Call_Get_latest k]) keys)"
  let ?db1 = "db\<lparr>calls := calls db @ ?reads (m_read_set t)\<rparr>"
  from assms(4) have F1: "find ?P (m_read_set t) = None"
    and F2: "find ?P (map fst (m_write_buffer t)) = None"
    by (simp_all add: find_append split: option.splits)
  have V1: "validate_keys db (Some snap) (m_read_set t) = (OK, ?db1)"
    using F1 by (rule validate_keys_clean)
  have "find (\<lambda>k. conflict_spec (snap k) (latest ?db1 k)) (map fst (m_write_buffer t)) = None"
    using F2 by simp
  then have V2: "validate_keys ?db1 (Some snap) (map fst (m_write_buffer t)) =
      (OK, ?db1\<lparr>calls := calls ?db1 @ ?reads (map fst (m_write_buffer t))\<rparr>)"
    by (rule validate_keys_clean)
  have A: "m_state t = ACTIVE" using assms(1) by (simp add: CheckActive_OK_iff)
  show ?thesis
    using assms(1-3) A by (simp add: Commit_def V1 V2 DB_Write_def Abort_def)
qed

text \<open>The calls that the validation loops and \<open>Commit\<close> make on the store.\<close>

lemma reads_of_simps:
  "reads_of [] = []"
  "reads_of (k # ks) = Call_Get_at_snapshot k # Call_Get_latest k # reads_of ks"
  by (simp_all add: reads_of_def)

lemma reads_of_mem:
  "Call_Get_at_snapshot k \<in> set (reads_of ks) \<longleftrightarrow> k \<in> set ks"
  "Call_Get_latest k \<in> set (reads_of ks) \<longleftrightarrow> k \<in> set ks"
  by (auto simp: reads_of_def)

lemma validated_keys_subset: "set (validated_keys P ks) \<subseteq> set ks"
  by (induction ks) auto

lemma validated_keys_clean: "find P ks = None \<Longrightarrow> validated_keys P ks = ks"
  by (induction ks) (auto split: if_splits)

lemma validated_keys_reached:
  "k \<in> set ks \<Longrightarrow> find P (takeWhile (\<lambda>x. x \<noteq> k) ks) = None \<Longrightarrow> k \<in> set (validated_keys P ks)"
  by (induction ks) (auto split: if_splits)

lemma validated_keys_not_reached:
  "find P (takeWhile (\<lambda>x. x \<noteq> k) ks) \<noteq> None \<Longrightarrow> k \<notin> set (validated_keys P ks)"
  by (induction ks) (auto split: if_splits)

lemma validate_keys_log:
  "validate_keys db (Some snap) keys =
     ((case find (in_conflict snap db) keys of
         None \<Rightarrow> OK
       | Some k \<Rightarrow> Corruption conflict_msg k),
      db\<lparr>calls := calls db @ reads_of (validated_keys (in_conflict snap db) keys)\<rparr>)"
proof (induction keys arbitrary: db)
  case Nil
  show ?case by (simp add: reads_of_simps)
next
  case (Cons key keys)
  let ?db' = "db\<lparr>calls := calls db @ [Call_Get_at_snapshot key, Call_Get_latest key]\<rparr>"
  have same: "in_conflict snap ?db' = in_conflict snap db"
    by (simp add: in_conflict_def fun_eq_iff)
  show ?case
  proof (cases "in_conflict snap db key")
    case True
    then show ?thesis by (simp add: Validate_eq in_conflict_def reads_of_simps)
  next
    case False
    then have "\<not> conflict_spec (snap key) (latest db key)" by (simp add: in_conflict_def)
    with False Cons.IH [of ?db'] show ?thesis
      by (simp add: Validate_eq same reads_of_simps)
  qed
qed

lemma Commit_log:
  assumes "CheckActive t = OK" and "m_write_buffer t \<noteq> []" and "m_snapshot t = Some snap"
  shows "Commit t db =
    (case find (in_conflict snap db) (m_read_set t) of
       Some k \<Rightarrow>
         (Corruption conflict_msg k, t,
          db\<lparr>calls := calls db @
               reads_of (validated_keys (in_conflict snap db) (m_read_set t))\<rparr>)
     | None \<Rightarrow>
         (case find (in_conflict snap db) (map fst (m_write_buffer t)) of
            Some k \<Rightarrow>
              (Corruption conflict_msg k, t,
               db\<lparr>calls := calls db @ reads_of (m_read_set t) @
                    reads_of (validated_keys (in_conflict snap db)
                                (map fst (m_write_buffer t)))\<rparr>)
          | None \<Rightarrow>
              (write_result db,
               (if ok (write_result db)
                then t\<lparr>m_state := COMMITTED, m_write_buffer := [], m_write_batch := []\<rparr>
                else t\<lparr>m_state := ABORTED, m_write_buffer := [], m_write_batch := []\<rparr>),
               db\<lparr>latest := (if ok (write_result db)
                              then apply_batch (m_write_batch t) (latest db) else latest db),
                  calls := calls db @ reads_of (m_read_set t) @
                    reads_of (map fst (m_write_buffer t)) @
                    [Call_Write (m_write_batch t)]\<rparr>)))"
proof -
  let ?P = "in_conflict snap db"
  let ?rs = "m_read_set t"
  let ?ws = "map fst (m_write_buffer t)"
  let ?db1 = "db\<lparr>calls := calls db @ reads_of (validated_keys ?P ?rs)\<rparr>"
  have same: "in_conflict snap ?db1 = ?P"
    by (simp add: in_conflict_def fun_eq_iff)
  have A: "m_state t = ACTIVE" using assms(1) by (simp add: CheckActive_OK_iff)
  have V1: "validate_keys db (Some snap) ?rs =
      ((case find ?P ?rs of None \<Rightarrow> OK | Some k \<Rightarrow> Corruption conflict_msg k), ?db1)"
    by (rule validate_keys_log)
  have V2: "validate_keys ?db1 (Some snap) ?ws =
      ((case find ?P ?ws of None \<Rightarrow> OK | Some k \<Rightarrow> Corruption conflict_msg k),
       ?db1\<lparr>calls := calls ?db1 @ reads_of (validated_keys ?P ?ws)\<rparr>)"
    using validate_keys_log [of ?db1 snap ?ws] by (simp add: same)
  show ?thesis
  proof (cases "find ?P ?rs")
    case (Some k)
    then show ?thesis using assms by (simp add: Commit_def V1)
  next
    case None
    note rs_clean = None
    let ?db1' = "db\<lparr>calls := calls db @ reads_of ?rs\<rparr>"
    from V1 rs_clean have V1': "validate_keys db (Some snap) ?rs = (OK, ?db1')"
      by (simp add: validated_keys_clean)
    from V2 rs_clean have V2': "validate_keys ?db1' (Some snap) ?ws =
      ((case find ?P ?ws of None \<Rightarrow> OK | Some k \<Rightarrow> Corruption conflict_msg k),
       db\<lparr>calls := calls db @ reads_of ?rs @ reads_of (validated_keys ?P ?ws)\<rparr>)"
      by (simp add: validated_keys_clean)
    show ?thesis
    proof (cases "find ?P ?ws")
      case (Some k)
      with rs_clean show ?thesis
        using assms by (simp add: Commit_def V1' V2')
    next
      case None
      with rs_clean show ?thesis
        using assms A
        by (simp add: Commit_def V1' V2' validated_keys_clean DB_Write_def Abort_def)
    qed
  qed
qed

lemma Commit_buffers:
  "(m_write_buffer (fst (snd (Commit t db))) = m_write_buffer t \<and>
    m_write_batch (fst (snd (Commit t db))) = m_write_batch t) \<or>
   (m_write_buffer (fst (snd (Commit t db))) = [] \<and>
    m_write_batch (fst (snd (Commit t db))) = [])"
  using Abort_buffers [of t]
  by (auto simp: Commit_def Let_def split: prod.splits)

text \<open>
  C4. For every ACTIVE transaction with a non-empty write buffer: if some key of the read
  set or of the write buffer is in conflict (between the transaction's snapshot and the
  store at the time of the commit), \<open>Commit()\<close> returns a conflict error, naming the first
  such key in the order read set, then write buffer, and the transaction is returned as it
  was: state (still ACTIVE), write buffer, write batch and read set unchanged. The contents
  of the store are unchanged too.
\<close>

theorem Commit_conflict_leaves_transaction:
  assumes "CheckActive t = OK" and "m_write_buffer t \<noteq> []" and "m_snapshot t = Some snap"
    and "k \<in> set (m_read_set t) \<union> set (map fst (m_write_buffer t))"
    and "conflict_spec (snap k) (latest db k)"
  shows "IsCorruption (fst (Commit t db)) \<and>
         (\<exists>k0. find (\<lambda>k. conflict_spec (snap k) (latest db k))
                 (m_read_set t @ map fst (m_write_buffer t)) = Some k0 \<and>
               fst (Commit t db) = Corruption conflict_msg k0) \<and>
         fst (snd (Commit t db)) = t \<and>
         m_state (fst (snd (Commit t db))) = ACTIVE \<and>
         latest (snd (snd (Commit t db))) = latest db"
proof -
  let ?P = "\<lambda>k. conflict_spec (snap k) (latest db k)"
  let ?keys = "m_read_set t @ map fst (m_write_buffer t)"
  from assms(4,5) have "\<exists>x\<in>set ?keys. ?P x" by auto
  then obtain k0 where F: "find ?P ?keys = Some k0"
    by (cases "find ?P ?keys") (auto simp: find_None_iff)
  have A: "m_state t = ACTIVE"
    using assms(1) by (simp add: CheckActive_OK_iff)
  from Commit_status [OF assms(1-3) F] obtain db'
    where "Commit t db = (Corruption conflict_msg k0, t, db')" "latest db' = latest db"
    by blast
  with F A show ?thesis by simp
qed

theorem Commit_conflict_leaves_transaction_witness:
  "CheckActive (snd (Put (begin_on []) ''a'' ''2'')) = OK
   \<and> m_write_buffer (snd (Put (begin_on []) ''a'' ''2'')) \<noteq> []
   \<and> conflict_spec (view_of [] ''a'') (latest (store_of [(''a'', ''1'')]) ''a'')
   \<and> IsCorruption (fst (Commit (snd (Put (begin_on []) ''a'' ''2'')) (store_of [(''a'', ''1'')])))
   \<and> fst (snd (Commit (snd (Put (begin_on []) ''a'' ''2'')) (store_of [(''a'', ''1'')])))
        = snd (Put (begin_on []) ''a'' ''2'')
   \<and> m_state (fst (snd (Commit (snd (Put (begin_on []) ''a'' ''2''))
        (store_of [(''a'', ''1'')])))) = ACTIVE"
proof -
  let ?t = "snd (Put (begin_on []) ''a'' ''2'')"
  let ?db = "store_of [(''a'', ''1'')]"
  have h1: "CheckActive ?t = OK" by (simp add: ev_defs)
  have h2: "m_write_buffer ?t \<noteq> []" by (simp add: ev_defs)
  have h3: "m_snapshot ?t = Some (view_of [])" by (simp add: ev_defs)
  have h4: "''a'' \<in> set (m_read_set ?t) \<union> set (map fst (m_write_buffer ?t))"
    by (simp add: ev_defs)
  have h5: "conflict_spec (view_of [] ''a'') (latest ?db ''a'')" by (simp add: ev_defs)
  show ?thesis
    using h1 h2 h5 Commit_conflict_leaves_transaction [OF h1 h2 h3 h4 h5] by blast
qed

text \<open>
  C5. For every ACTIVE transaction whose write buffer is empty, \<open>Commit()\<close> returns OK and
  sets the state to COMMITTED, and it makes no call on the store: no key of the read set is
  validated again. The witness is a transaction that read \<open>k\<close>, after which \<open>k\<close> was
  changed in the store: its commit is OK.
\<close>

theorem Commit_read_only:
  assumes "CheckActive t = OK" and "m_write_buffer t = []"
  shows "Commit t db = (OK, t\<lparr>m_state := COMMITTED\<rparr>, db)"
  using assms by (simp add: Commit_def)

theorem Commit_read_only_witness:
  "m_read_set (fst (snd (snd (Get (begin_on [(''k'', ''a'')]) (store_of [(''k'', ''a'')]) ''k'' []))))
     = [''k'']
   \<and> conflict_spec (view_of [(''k'', ''a'')] ''k'') (latest (store_of [(''k'', ''b'')]) ''k'')
   \<and> Commit (fst (snd (snd (Get (begin_on [(''k'', ''a'')]) (store_of [(''k'', ''a'')]) ''k'' []))))
        (store_of [(''k'', ''b'')])
     = (OK,
        (fst (snd (snd (Get (begin_on [(''k'', ''a'')]) (store_of [(''k'', ''a'')]) ''k'' []))))
          \<lparr>m_state := COMMITTED\<rparr>,
        store_of [(''k'', ''b'')])"
proof -
  let ?t = "fst (snd (snd (Get (begin_on [(''k'', ''a'')]) (store_of [(''k'', ''a'')]) ''k'' [])))"
  have h1: "CheckActive ?t = OK" by (simp add: ev_defs)
  have h2: "m_write_buffer ?t = []" by (simp add: ev_defs)
  have h3: "m_read_set ?t = [''k'']" by (simp add: ev_defs)
  have h4: "conflict_spec (view_of [(''k'', ''a'')] ''k'') (latest (store_of [(''k'', ''b'')]) ''k'')"
    by (simp add: ev_defs)
  show ?thesis
    using h3 h4 Commit_read_only [OF h1 h2, of "store_of [(''k'', ''b'')]"] by blast
qed

section \<open>Reads served from the write buffer\<close>

text \<open>
  C10. For every ACTIVE transaction and every key with an entry in the write buffer,
  \<open>Get\<close> is answered from that entry: NotFound for a tombstone, else OK with the buffered
  value. The store is returned as it was, so no read was made on it and no validation ran,
  and the transaction is returned as it was, so the key was not added to the read set.
  The key is validated at commit, in the loop over the write buffer. The calls that
  \<open>Commit\<close> makes on any store are the reads of its first loop (the read set, up to the first
  conflict), then, if the read set is clean, the reads of its second loop (the write buffer,
  up to the first conflict), then, if that is clean too, the write. A key that is not in the
  read set is not read by the first loop. The second loop reads the key if no key before
  it in the write buffer is in conflict, and does not get to it otherwise. If the read set
  is clean and the key is the first key of the write buffer in conflict, \<open>Commit\<close> returns
  the conflict for this key and leaves the transaction as it was.
\<close>

theorem Get_from_write_buffer:
  assumes "CheckActive t = OK" and "map_of (m_write_buffer t) key = Some e"
  shows "Get t db key val =
           ((if is_tombstone e then NotFound ''Key deleted in transaction'' else OK),
            (if is_tombstone e then val else entry_value e), t, db) \<and>
         key \<in> set (map fst (m_write_buffer t)) \<and>
         (\<forall>snap. m_snapshot t = Some snap \<longrightarrow>
            calls (snd (snd (Commit t db'))) =
              calls db' @
              reads_of (validated_keys (in_conflict snap db') (m_read_set t)) @
              (if find (in_conflict snap db') (m_read_set t) = None
               then reads_of (validated_keys (in_conflict snap db')
                                (map fst (m_write_buffer t))) @
                    (if find (in_conflict snap db') (map fst (m_write_buffer t)) = None
                     then [Call_Write (m_write_batch t)] else [])
               else []) \<and>
            (key \<notin> set (m_read_set t) \<longrightarrow>
               Call_Get_at_snapshot key \<notin>
                 set (reads_of (validated_keys (in_conflict snap db') (m_read_set t))) \<and>
               Call_Get_latest key \<notin>
                 set (reads_of (validated_keys (in_conflict snap db') (m_read_set t)))) \<and>
            (find (in_conflict snap db')
                (takeWhile (\<lambda>k. k \<noteq> key) (map fst (m_write_buffer t))) = None \<longrightarrow>
               Call_Get_at_snapshot key \<in>
                 set (reads_of (validated_keys (in_conflict snap db')
                                  (map fst (m_write_buffer t)))) \<and>
               Call_Get_latest key \<in>
                 set (reads_of (validated_keys (in_conflict snap db')
                                  (map fst (m_write_buffer t))))) \<and>
            (find (in_conflict snap db')
                (takeWhile (\<lambda>k. k \<noteq> key) (map fst (m_write_buffer t))) \<noteq> None \<longrightarrow>
               key \<notin> set (validated_keys (in_conflict snap db')
                               (map fst (m_write_buffer t)))) \<and>
            (find (in_conflict snap db') (m_read_set t) = None \<longrightarrow>
             find (in_conflict snap db') (map fst (m_write_buffer t)) = Some key \<longrightarrow>
               fst (Commit t db') = Corruption conflict_msg key \<and>
               fst (snd (Commit t db')) = t))"
proof -
  let ?rs = "m_read_set t"
  let ?ws = "map fst (m_write_buffer t)"
  from assms(2) have "(key, e) \<in> set (m_write_buffer t)" by (rule map_of_SomeD)
  then have M: "key \<in> set ?ws" by force
  then have ne: "m_write_buffer t \<noteq> []" by auto
  have G: "Get t db key val =
           ((if is_tombstone e then NotFound ''Key deleted in transaction'' else OK),
            (if is_tombstone e then val else entry_value e), t, db)"
    using assms by (simp add: Get_def)
  have C: "calls (snd (snd (Commit t db'))) =
              calls db' @
              reads_of (validated_keys (in_conflict snap db') ?rs) @
              (if find (in_conflict snap db') ?rs = None
               then reads_of (validated_keys (in_conflict snap db') ?ws) @
                    (if find (in_conflict snap db') ?ws = None
                     then [Call_Write (m_write_batch t)] else [])
               else []) \<and>
            (key \<notin> set ?rs \<longrightarrow>
               Call_Get_at_snapshot key \<notin>
                 set (reads_of (validated_keys (in_conflict snap db') ?rs)) \<and>
               Call_Get_latest key \<notin>
                 set (reads_of (validated_keys (in_conflict snap db') ?rs))) \<and>
            (find (in_conflict snap db') (takeWhile (\<lambda>k. k \<noteq> key) ?ws) = None \<longrightarrow>
               Call_Get_at_snapshot key \<in>
                 set (reads_of (validated_keys (in_conflict snap db') ?ws)) \<and>
               Call_Get_latest key \<in>
                 set (reads_of (validated_keys (in_conflict snap db') ?ws))) \<and>
            (find (in_conflict snap db') (takeWhile (\<lambda>k. k \<noteq> key) ?ws) \<noteq> None \<longrightarrow>
               key \<notin> set (validated_keys (in_conflict snap db') ?ws)) \<and>
            (find (in_conflict snap db') ?rs = None \<longrightarrow>
             find (in_conflict snap db') ?ws = Some key \<longrightarrow>
               fst (Commit t db') = Corruption conflict_msg key \<and>
               fst (snd (Commit t db')) = t)"
    if S: "m_snapshot t = Some snap" for snap
  proof -
    let ?P = "in_conflict snap db'"
    note L = Commit_log [OF assms(1) ne S, of db']
    have c1: "calls (snd (snd (Commit t db'))) =
              calls db' @ reads_of (validated_keys ?P ?rs) @
              (if find ?P ?rs = None
               then reads_of (validated_keys ?P ?ws) @
                    (if find ?P ?ws = None then [Call_Write (m_write_batch t)] else [])
               else [])"
      by (cases "find ?P ?rs"; cases "find ?P ?ws") (simp_all add: L validated_keys_clean)
    have c2: "Call_Get_at_snapshot key \<notin> set (reads_of (validated_keys ?P ?rs)) \<and>
              Call_Get_latest key \<notin> set (reads_of (validated_keys ?P ?rs))"
      if "key \<notin> set ?rs"
      using that validated_keys_subset [of ?P ?rs] by (auto simp: reads_of_mem)
    have c3: "Call_Get_at_snapshot key \<in> set (reads_of (validated_keys ?P ?ws)) \<and>
              Call_Get_latest key \<in> set (reads_of (validated_keys ?P ?ws))"
      if "find ?P (takeWhile (\<lambda>k. k \<noteq> key) ?ws) = None"
      using validated_keys_reached [OF M that] by (simp add: reads_of_mem)
    have c4: "fst (Commit t db') = Corruption conflict_msg key \<and> fst (snd (Commit t db')) = t"
      if "find ?P ?rs = None" "find ?P ?ws = Some key"
      using that by (simp add: L)
    have c5: "key \<notin> set (validated_keys ?P ?ws)"
      if "find ?P (takeWhile (\<lambda>k. k \<noteq> key) ?ws) \<noteq> None"
      using that by (rule validated_keys_not_reached)
    from c1 c2 c3 c4 c5 show ?thesis by blast
  qed
  from G M C show ?thesis by blast
qed

theorem Get_from_write_buffer_witness:
  "CheckActive (run (begin_on [(''r'', ''x'')])
          [(store_of [(''r'', ''x'')], OpGet ''r''), (store_of [(''r'', ''x'')], OpPut ''a'' ''2'')]) = OK
   \<and> m_read_set (run (begin_on [(''r'', ''x'')])
          [(store_of [(''r'', ''x'')], OpGet ''r''), (store_of [(''r'', ''x'')], OpPut ''a'' ''2'')]) = [''r'']
   \<and> Get (run (begin_on [(''r'', ''x'')])
          [(store_of [(''r'', ''x'')], OpGet ''r''), (store_of [(''r'', ''x'')], OpPut ''a'' ''2'')])
        (store_of [(''r'', ''x''), (''a'', ''1'')]) ''a'' []
       = (OK, ''2'',
          run (begin_on [(''r'', ''x'')])
          [(store_of [(''r'', ''x'')], OpGet ''r''), (store_of [(''r'', ''x'')], OpPut ''a'' ''2'')],
          store_of [(''r'', ''x''), (''a'', ''1'')])
   \<and> calls (snd (snd (Commit (run (begin_on [(''r'', ''x'')])
          [(store_of [(''r'', ''x'')], OpGet ''r''), (store_of [(''r'', ''x'')], OpPut ''a'' ''2'')])
        (store_of [(''r'', ''x''), (''a'', ''1'')]))))
       = [Call_Get_at_snapshot ''r'', Call_Get_latest ''r'',
          Call_Get_at_snapshot ''a'', Call_Get_latest ''a'']
   \<and> fst (Commit (run (begin_on [(''r'', ''x'')])
          [(store_of [(''r'', ''x'')], OpGet ''r''), (store_of [(''r'', ''x'')], OpPut ''a'' ''2'')])
        (store_of [(''r'', ''x''), (''a'', ''1'')]))
       = Corruption conflict_msg ''a''"
proof -
  let ?t = "run (begin_on [(''r'', ''x'')])
          [(store_of [(''r'', ''x'')], OpGet ''r''), (store_of [(''r'', ''x'')], OpPut ''a'' ''2'')]"
  let ?D = "store_of [(''r'', ''x''), (''a'', ''1'')]"
  let ?snap = "view_of [(''r'', ''x'')]"
  have h1: "CheckActive ?t = OK" by (simp add: ev_defs)
  have h2: "map_of (m_write_buffer ?t) ''a'' = Some (BufferEntry_of ''2'')"
    by (simp add: ev_defs)
  have h3: "m_snapshot ?t = Some ?snap" by (simp add: ev_defs)
  have rs: "m_read_set ?t = [''r'']" by (simp add: ev_defs)
  have ws: "map fst (m_write_buffer ?t) = [''a'']" by (simp add: ev_defs)
  have p: "\<not> in_conflict ?snap ?D ''r''" "in_conflict ?snap ?D ''a''"
    by (simp_all add: in_conflict_def ev_defs)
  have e: "\<not> is_tombstone (BufferEntry_of ''2'')" "entry_value (BufferEntry_of ''2'') = ''2''"
    by (simp_all add: BufferEntry_of_def)
  have c0: "calls ?D = []" by (simp add: store_of_def)
  note T = Get_from_write_buffer [OF h1 h2, of ?D "[]" ?D]
  from T e have g: "Get ?t ?D ''a'' [] = (OK, ''2'', ?t, ?D)" by simp
  from T h3 have
    "calls (snd (snd (Commit ?t ?D))) =
       calls ?D @ reads_of (validated_keys (in_conflict ?snap ?D) (m_read_set ?t)) @
       (if find (in_conflict ?snap ?D) (m_read_set ?t) = None
        then reads_of (validated_keys (in_conflict ?snap ?D) (map fst (m_write_buffer ?t))) @
             (if find (in_conflict ?snap ?D) (map fst (m_write_buffer ?t)) = None
              then [Call_Write (m_write_batch ?t)] else [])
        else [])"
    and "find (in_conflict ?snap ?D) (m_read_set ?t) = None \<longrightarrow>
         find (in_conflict ?snap ?D) (map fst (m_write_buffer ?t)) = Some ''a'' \<longrightarrow>
           fst (Commit ?t ?D) = Corruption conflict_msg ''a''"
    by blast+
  then have "calls (snd (snd (Commit ?t ?D))) =
       [Call_Get_at_snapshot ''r'', Call_Get_latest ''r'',
        Call_Get_at_snapshot ''a'', Call_Get_latest ''a'']"
    and "fst (Commit ?t ?D) = Corruption conflict_msg ''a''"
    by (simp_all add: rs ws p c0 reads_of_def)
  with h1 rs g show ?thesis by blast
qed

section \<open>Operations on a transaction that is not active\<close>

text \<open>
  C9. The constructor always returns a transaction. With a null store, or when the store
  hands out no snapshot, that transaction is ABORTED. On a transaction that is ABORTED or
  COMMITTED or has no store or no snapshot, \<open>Get\<close>, \<open>Put\<close>, \<open>Delete\<close> and \<open>Commit\<close> return
  the invalid-state status (\<open>Status::InvalidArgument\<close> in the code) and leave the
  transaction, the store (no call is made on it) and \<open>*value\<close> as they were.
\<close>

theorem inactive_operations_fail:
  "m_state (fst (Transaction_new None db)) = ABORTED \<and>
   (snapshot_unavailable db0 \<longrightarrow> m_state (fst (Transaction_new (Some a) db0)) = ABORTED) \<and>
   (m_state t = ABORTED \<or> m_state t = COMMITTED \<or> m_db t = None \<or> m_snapshot t = None \<longrightarrow>
      IsInvalidArgument (CheckActive t) \<and>
      Get t db key val = (CheckActive t, val, t, db) \<and>
      Put t key v = (CheckActive t, t) \<and>
      Delete t key = (CheckActive t, t) \<and>
      Commit t db = (CheckActive t, t, db))"
proof -
  have "m_state (fst (Transaction_new None db)) = ABORTED"
    by (simp add: Transaction_new_def)
  moreover have "snapshot_unavailable db0 \<longrightarrow>
      m_state (fst (Transaction_new (Some a) db0)) = ABORTED"
    by (simp add: Transaction_new_def DB_GetSnapshot_def)
  moreover have "IsInvalidArgument (CheckActive t) \<and>
      Get t db key val = (CheckActive t, val, t, db) \<and>
      Put t key v = (CheckActive t, t) \<and>
      Delete t key = (CheckActive t, t) \<and>
      Commit t db = (CheckActive t, t, db)"
    if "m_state t = ABORTED \<or> m_state t = COMMITTED \<or> m_db t = None \<or> m_snapshot t = None"
  proof -
    from that have I: "IsInvalidArgument (CheckActive t)"
      by (cases "m_state t") (auto simp: CheckActive_def)
    then have "\<not> ok (CheckActive t)" by (cases "CheckActive t") auto
    with I show ?thesis by (simp add: Get_def Put_def Delete_def Commit_def)
  qed
  ultimately show ?thesis by blast
qed

theorem inactive_operations_fail_witness:
  "snapshot_unavailable ((store_of [])\<lparr>snapshot_unavailable := True\<rparr>)
   \<and> m_state (fst (Transaction_new (Some 0) ((store_of [])\<lparr>snapshot_unavailable := True\<rparr>)))
       = ABORTED
   \<and> Get (fst (Transaction_new (Some 0) ((store_of [])\<lparr>snapshot_unavailable := True\<rparr>)))
         (store_of [(''k'', ''a'')]) ''k'' ''junk''
       = (InvalidArgument ''Transaction has been aborted'', ''junk'',
          fst (Transaction_new (Some 0) ((store_of [])\<lparr>snapshot_unavailable := True\<rparr>)),
          store_of [(''k'', ''a'')])
   \<and> Commit (fst (Transaction_new (Some 0) ((store_of [])\<lparr>snapshot_unavailable := True\<rparr>)))
         (store_of [(''k'', ''a'')])
       = (InvalidArgument ''Transaction has been aborted'',
          fst (Transaction_new (Some 0) ((store_of [])\<lparr>snapshot_unavailable := True\<rparr>)),
          store_of [(''k'', ''a'')])"
proof -
  let ?D = "(store_of [])\<lparr>snapshot_unavailable := True\<rparr>"
  let ?t = "fst (Transaction_new (Some 0) ?D)"
  have h1: "snapshot_unavailable ?D" by simp
  have h2: "CheckActive ?t = InvalidArgument ''Transaction has been aborted''"
    by (simp add: ev_defs)
  from h1 inactive_operations_fail
    [where ?db0.0 = ?D and a = 0 and t = ?t and db = "store_of [(''k'', ''a'')]" and key = "''k''"
       and val = "''junk''"]
  have s: "m_state ?t = ABORTED" by blast
  from s inactive_operations_fail
    [where ?db0.0 = ?D and a = 0 and t = ?t and db = "store_of [(''k'', ''a'')]" and key = "''k''"
       and val = "''junk''"]
  have "Get ?t (store_of [(''k'', ''a'')]) ''k'' ''junk''
          = (CheckActive ?t, ''junk'', ?t, store_of [(''k'', ''a'')])
        \<and> Commit ?t (store_of [(''k'', ''a'')]) = (CheckActive ?t, ?t, store_of [(''k'', ''a'')])"
    by blast
  with h1 h2 s show ?thesis by simp
qed

section \<open>Facts about sequences of operations\<close>

lemma Put_active:
  "CheckActive t = OK \<Longrightarrow>
   Put t key v = (OK, t\<lparr>m_write_buffer := AList.update key (BufferEntry_of v) (m_write_buffer t),
                        m_write_batch := m_write_batch t @ [PutOp key v]\<rparr>)"
  by (simp add: Put_def)

lemma Delete_active:
  "CheckActive t = OK \<Longrightarrow>
   Delete t key = (OK, t\<lparr>m_write_buffer := AList.update key Tombstone (m_write_buffer t),
                         m_write_batch := m_write_batch t @ [DeleteOp key]\<rparr>)"
  by (simp add: Delete_def)

lemma run_append: "run t (xs @ ys) = run (run t xs) ys"
  by (simp add: run_def)

lemma run_single: "run t [x] = step t x"
  by (simp add: run_def)

lemma step_fields:
  "m_db (step t x) = m_db t" "m_snapshot (step t x) = m_snapshot t"
  "set (m_read_set t) \<subseteq> set (m_read_set (step t x))"
  "m_state (step t x) = ACTIVE \<Longrightarrow> m_state t = ACTIVE"
proof -
  obtain db op where x: "x = (db, op)" by (cases x)
  show "m_db (step t x) = m_db t"
    unfolding x
    by (cases op)
       (auto simp: Get_def Put_def Delete_def Commit_def Abort_fields Let_def
             split: option.splits prod.splits)
  show "m_snapshot (step t x) = m_snapshot t"
    unfolding x
    by (cases op)
       (auto simp: Get_def Put_def Delete_def Commit_def Abort_fields Let_def
             split: option.splits prod.splits)
  show "set (m_read_set t) \<subseteq> set (m_read_set (step t x))"
    unfolding x
    by (cases op)
       (auto simp: Get_def Put_def Delete_def Commit_def Abort_fields Let_def
             split: option.splits prod.splits)
  show "m_state (step t x) = ACTIVE \<Longrightarrow> m_state t = ACTIVE"
    unfolding x
    by (cases op)
       (auto simp: Get_def Put_def Delete_def Commit_def Let_def CheckActive_OK_iff
                   ok_CheckActive
             dest: Abort_fields(4) split: option.splits prod.splits if_splits)
qed

lemma run_fields:
  "m_db (run t ops) = m_db t" "m_snapshot (run t ops) = m_snapshot t"
  "set (m_read_set t) \<subseteq> set (m_read_set (run t ops))"
  "m_state (run t ops) = ACTIVE \<Longrightarrow> m_state t = ACTIVE"
  unfolding run_def
proof (induction ops arbitrary: t)
  case Nil
  { case 1 show ?case by simp }
  { case 2 show ?case by simp }
  { case 3 show ?case by simp }
  { case 4 then show ?case by simp }
next
  case (Cons x ops)
  { case 1 show ?case by (simp add: Cons.IH(1) step_fields(1)) }
  { case 2 show ?case by (simp add: Cons.IH(2) step_fields(2)) }
  { case 3 show ?case using Cons.IH(3) [of "step t x"] step_fields(3) [of t x] by auto }
  { case 4 then show ?case using Cons.IH(4) [of "step t x"] step_fields(4) [of t x] by simp }
qed

lemma new_active:
  "m_state (fst (Transaction_new dbp db0)) = ACTIVE \<Longrightarrow>
   CheckActive (fst (Transaction_new dbp db0)) = OK"
  by (auto simp: Transaction_new_def DB_GetSnapshot_def CheckActive_def Let_def
           split: if_splits)

text \<open>A transaction reached from the constructor is ACTIVE exactly when \<open>CheckActive\<close> accepts it.\<close>

lemma reachable_active:
  assumes "m_state (run (fst (Transaction_new dbp db0)) ops) = ACTIVE"
  shows "CheckActive (run (fst (Transaction_new dbp db0)) ops) = OK"
proof -
  let ?t0 = "fst (Transaction_new dbp db0)"
  from assms have "m_state ?t0 = ACTIVE" by (rule run_fields(4))
  then have "CheckActive ?t0 = OK" by (rule new_active)
  then have "m_db ?t0 \<noteq> None \<and> m_snapshot ?t0 \<noteq> None" by (simp add: CheckActive_OK_iff)
  with assms show ?thesis by (simp add: CheckActive_OK_iff run_fields(1,2))
qed

text \<open>
  C3. The specification says that the read set only grows, that keys are added to it only while the
  state is ACTIVE, and that a \<open>Get\<close> whose validation reports a conflict does not add the
  key. The read set does only grow (\<open>step_fields\<close>, \<open>run_fields\<close> above), but the code runs
  \<open>read_set_.insert(key_str)\<close> after \<open>Abort()\<close> on the conflict path as well
  (\<open>Get_conflict\<close> above). Here \<open>k\<close> holds \<open>a\<close> at the snapshot and \<open>b\<close> now: \<open>Get\<close>
  returns the conflict, the state is ABORTED, and \<open>k\<close> has been added to the read set.
\<close>

theorem Get_conflict_adds_key_to_read_set:
  "fst (Get (begin_on [(''k'', ''a'')]) (store_of [(''k'', ''b'')]) ''k'' []) =
     Corruption conflict_msg ''k''
   \<and> m_state (begin_on [(''k'', ''a'')]) = ACTIVE
   \<and> m_read_set (begin_on [(''k'', ''a'')]) = []
   \<and> m_state (fst (snd (snd (Get (begin_on [(''k'', ''a'')]) (store_of [(''k'', ''b'')]) ''k'' []))))
       = ABORTED
   \<and> m_read_set (fst (snd (snd (Get (begin_on [(''k'', ''a'')]) (store_of [(''k'', ''b'')]) ''k'' []))))
       = [''k'']"
  by (simp add: ev_defs)

section \<open>Read your own writes\<close>

lemma step_mutation:
  assumes "CheckActive t = OK" and "is_mutation op"
  shows "CheckActive (step t (db, op)) = OK"
    and "\<not> mutates k op \<Longrightarrow>
           map_of (m_write_buffer (step t (db, op))) k = map_of (m_write_buffer t) k"
  using assms by (cases op; simp add: Put_active Delete_active update_conv')+

lemma run_mutations:
  assumes "CheckActive t = OK" and "\<forall>x\<in>set ops. is_mutation (snd x)"
  shows "CheckActive (run t ops) = OK"
  using assms unfolding run_def
proof (induction ops arbitrary: t)
  case Nil
  then show ?case by simp
next
  case (Cons x ops)
  obtain db op where x: "x = (db, op)" by (cases x)
  with Cons.prems have "CheckActive (step t x) = OK"
    by (simp add: step_mutation(1))
  with Cons show ?case by simp
qed

lemma run_mutations_other_key:
  assumes "CheckActive t = OK"
    and "\<forall>x\<in>set ops. is_mutation (snd x) \<and> \<not> mutates k (snd x)"
  shows "map_of (m_write_buffer (run t ops)) k = map_of (m_write_buffer t) k"
  using assms unfolding run_def
proof (induction ops arbitrary: t)
  case Nil
  then show ?case by simp
next
  case (Cons x ops)
  obtain db op where x: "x = (db, op)" by (cases x)
  with Cons.prems have A: "CheckActive (step t x) = OK"
    and B: "map_of (m_write_buffer (step t x)) k = map_of (m_write_buffer t) k"
    by (simp_all add: step_mutation)
  from Cons.IH [OF A] Cons.prems(2) B show ?case by simp
qed

text \<open>
  C6. Take an ACTIVE transaction and any sequence of \<open>Put\<close> and \<open>Delete\<close> calls. If the last
  call on \<open>k\<close> in the sequence is \<open>Put(k, v)\<close>, then \<open>Get(k)\<close> returns OK and \<open>v\<close>; if it is
  \<open>Delete(k)\<close>, then \<open>Get(k)\<close> returns NotFound, whatever the store holds for \<open>k\<close>. In both
  cases neither the transaction nor the store changes. So \<open>Put(k, a)\<close>, \<open>Delete(k)\<close>,
  \<open>Get(k)\<close> gives NotFound and \<open>Delete(k)\<close>, \<open>Put(k, a)\<close>, \<open>Get(k)\<close> gives \<open>a\<close> (the witness).
\<close>

theorem read_your_own_writes:
  assumes "CheckActive t = OK"
    and "\<forall>x\<in>set before. is_mutation (snd x)"
    and "\<forall>x\<in>set after. is_mutation (snd x) \<and> \<not> mutates k (snd x)"
  shows "Get (run t (before @ [(d, OpPut k v)] @ after)) db k val =
           (OK, v, run t (before @ [(d, OpPut k v)] @ after), db) \<and>
         Get (run t (before @ [(d, OpDelete k)] @ after)) db k val =
           (NotFound ''Key deleted in transaction'', val,
            run t (before @ [(d, OpDelete k)] @ after), db)"
proof -
  have last_wins:
    "CheckActive (run t (before @ [(d, op)] @ after)) = OK \<and>
     map_of (m_write_buffer (run t (before @ [(d, op)] @ after))) k =
       map_of (m_write_buffer (step (run t before) (d, op))) k"
    if "is_mutation op" for op
  proof -
    have A: "CheckActive (run t before) = OK"
      using assms(1,2) by (rule run_mutations)
    with that have B: "CheckActive (step (run t before) (d, op)) = OK"
      by (simp add: step_mutation(1))
    have C: "\<forall>x\<in>set after. is_mutation (snd x)" using assms(3) by blast
    have R: "run t (before @ (d, op) # after) = run (step (run t before) (d, op)) after"
      by (simp add: run_def)
    show ?thesis
      using run_mutations [OF B C] run_mutations_other_key [OF B assms(3)] by (simp add: R)
  qed
  have A: "CheckActive (run t before) = OK"
    using assms(1,2) by (rule run_mutations)
  have P: "map_of (m_write_buffer (step (run t before) (d, OpPut k v))) k
             = Some (BufferEntry_of v)"
    using A by (simp add: Put_active update_conv')
  have D: "map_of (m_write_buffer (step (run t before) (d, OpDelete k))) k = Some Tombstone"
    using A by (simp add: Delete_active update_conv')
  have "Get (run t (before @ [(d, OpPut k v)] @ after)) db k val =
           (OK, v, run t (before @ [(d, OpPut k v)] @ after), db)"
    using last_wins [of "OpPut k v"] P by (simp add: Get_def BufferEntry_of_def)
  moreover have "Get (run t (before @ [(d, OpDelete k)] @ after)) db k val =
           (NotFound ''Key deleted in transaction'', val,
            run t (before @ [(d, OpDelete k)] @ after), db)"
    using last_wins [of "OpDelete k"] D by (simp add: Get_def Tombstone_def)
  ultimately show ?thesis by blast
qed

theorem read_your_own_writes_witness:
  "CheckActive (begin_on [(''k'', ''x'')]) = OK
   \<and> Get (run (begin_on [(''k'', ''x'')])
            [(store_of [(''k'', ''x'')], OpPut ''k'' ''a''), (store_of [(''k'', ''x'')], OpDelete ''k'')])
         (store_of [(''k'', ''x'')]) ''k'' []
       = (NotFound ''Key deleted in transaction'', [],
          run (begin_on [(''k'', ''x'')])
            [(store_of [(''k'', ''x'')], OpPut ''k'' ''a''), (store_of [(''k'', ''x'')], OpDelete ''k'')],
          store_of [(''k'', ''x'')])
   \<and> Get (run (begin_on [(''k'', ''x'')])
            [(store_of [(''k'', ''x'')], OpDelete ''k''), (store_of [(''k'', ''x'')], OpPut ''k'' ''a'')])
         (store_of [(''k'', ''x'')]) ''k'' []
       = (OK, ''a'',
          run (begin_on [(''k'', ''x'')])
            [(store_of [(''k'', ''x'')], OpDelete ''k''), (store_of [(''k'', ''x'')], OpPut ''k'' ''a'')],
          store_of [(''k'', ''x'')])"
proof -
  let ?D = "store_of [(''k'', ''x'')]"
  let ?t = "begin_on [(''k'', ''x'')]"
  have h1: "CheckActive ?t = OK" by (simp add: ev_defs)
  have h2: "\<forall>x\<in>set [(?D, OpPut ''k'' ''a'')]. is_mutation (snd x)" by simp
  have h2': "\<forall>x\<in>set [(?D, OpDelete ''k'')]. is_mutation (snd x)" by simp
  have h3: "\<forall>x\<in>set ([]::(DB \<times> operation) list). is_mutation (snd x) \<and> \<not> mutates ''k'' (snd x)"
    by simp
  from read_your_own_writes [OF h1 h2 h3, of ?D "''a''" ?D "[]"]
  have A: "Get (run ?t [(?D, OpPut ''k'' ''a''), (?D, OpDelete ''k'')]) ?D ''k'' []
       = (NotFound ''Key deleted in transaction'', [],
          run ?t [(?D, OpPut ''k'' ''a''), (?D, OpDelete ''k'')], ?D)"
    by simp
  from read_your_own_writes [OF h1 h2' h3, of ?D "''a''" ?D "[]"]
  have B: "Get (run ?t [(?D, OpDelete ''k''), (?D, OpPut ''k'' ''a'')]) ?D ''k'' []
       = (OK, ''a'', run ?t [(?D, OpDelete ''k''), (?D, OpPut ''k'' ''a'')], ?D)"
    by simp
  from h1 A B show ?thesis by blast
qed

section \<open>Write buffer and write batch in lockstep\<close>

lemma replay_snoc: "replay (batch @ [w]) = replay_op (replay batch) w"
  by (simp add: replay_def)

lemma replay_Nil: "replay [] = Map.empty"
  by (simp add: replay_def)

lemma step_pairing:
  "(m_write_buffer (step t x) = m_write_buffer t \<and> m_write_batch (step t x) = m_write_batch t) \<or>
   (m_write_buffer (step t x) = [] \<and> m_write_batch (step t x) = []) \<or>
   (\<exists>k v. m_write_buffer (step t x) = AList.update k (BufferEntry_of v) (m_write_buffer t) \<and>
          m_write_batch (step t x) = m_write_batch t @ [PutOp k v]) \<or>
   (\<exists>k. m_write_buffer (step t x) = AList.update k Tombstone (m_write_buffer t) \<and>
        m_write_batch (step t x) = m_write_batch t @ [DeleteOp k])"
proof -
  obtain db op where x: "x = (db, op)" by (cases x)
  show ?thesis
  proof (cases op)
    case (OpGet key)
    with x Get_buffers [of t db key "[]"] show ?thesis by auto
  next
    case (OpPut key v)
    with x show ?thesis by (simp add: Put_def Let_def)
  next
    case (OpDelete key)
    with x show ?thesis by (simp add: Delete_def Let_def)
  next
    case OpCommit
    with x Commit_buffers [of t db] show ?thesis by auto
  next
    case OpAbort
    with x Abort_buffers [of t] show ?thesis by auto
  qed
qed

lemma step_lockstep:
  assumes "replay (m_write_batch t) = map_of (m_write_buffer t)"
  shows "replay (m_write_batch (step t x)) = map_of (m_write_buffer (step t x))"
  using step_pairing [of t x] assms
  by (auto simp: replay_snoc replay_Nil update_conv')

lemma run_lockstep:
  assumes "replay (m_write_batch t) = map_of (m_write_buffer t)"
  shows "replay (m_write_batch (run t ops)) = map_of (m_write_buffer (run t ops))"
  using assms unfolding run_def
proof (induction ops arbitrary: t)
  case Nil
  then show ?case by simp
next
  case (Cons x ops)
  from Cons.IH [OF step_lockstep [OF Cons.prems]] show ?case by simp
qed

lemma new_buffers:
  "m_write_buffer (fst (Transaction_new dbp db0)) = [] \<and>
   m_write_batch (fst (Transaction_new dbp db0)) = []"
  by (simp add: Transaction_new_def DB_GetSnapshot_def Let_def)

text \<open>
  C7. After every sequence of operations on a newly constructed transaction, replaying the
  write batch from the empty map gives exactly the write buffer (as a map). And every single
  operation, on any transaction, either leaves write buffer and write batch as they are, or
  clears both, or stores a value entry under a key and appends the one matching Put to the
  batch, or stores a tombstone under a key and appends the one matching Delete. In the
  witness, \<open>Put(k, a)\<close> then \<open>Delete(k)\<close> leaves \<open>k\<close> in the buffer with a tombstone.
\<close>

theorem write_batch_mirrors_write_buffer:
  "replay (m_write_batch (run (fst (Transaction_new dbp db0)) ops)) =
     map_of (m_write_buffer (run (fst (Transaction_new dbp db0)) ops)) \<and>
   ((m_write_buffer (step t x) = m_write_buffer t \<and> m_write_batch (step t x) = m_write_batch t) \<or>
    (m_write_buffer (step t x) = [] \<and> m_write_batch (step t x) = []) \<or>
    (\<exists>k v. m_write_buffer (step t x) = AList.update k (BufferEntry_of v) (m_write_buffer t) \<and>
           m_write_batch (step t x) = m_write_batch t @ [PutOp k v]) \<or>
    (\<exists>k. m_write_buffer (step t x) = AList.update k Tombstone (m_write_buffer t) \<and>
         m_write_batch (step t x) = m_write_batch t @ [DeleteOp k]))"
proof -
  have "replay (m_write_batch (fst (Transaction_new dbp db0))) =
          map_of (m_write_buffer (fst (Transaction_new dbp db0)))"
    by (simp add: new_buffers replay_Nil)
  then have "replay (m_write_batch (run (fst (Transaction_new dbp db0)) ops)) =
     map_of (m_write_buffer (run (fst (Transaction_new dbp db0)) ops))"
    by (rule run_lockstep)
  with step_pairing [of t x] show ?thesis by blast
qed

theorem write_batch_mirrors_write_buffer_witness:
  "m_write_batch (run (begin_on [])
       [(store_of [], OpPut ''k'' ''a''), (store_of [], OpDelete ''k'')])
     = [PutOp ''k'' ''a'', DeleteOp ''k'']
   \<and> m_write_buffer (run (begin_on [])
       [(store_of [], OpPut ''k'' ''a''), (store_of [], OpDelete ''k'')])
     = [(''k'', Tombstone)]
   \<and> replay [PutOp ''k'' ''a'', DeleteOp ''k''] = map_of [(''k'', Tombstone)]"
proof -
  let ?ops = "[(store_of [], OpPut ''k'' ''a''), (store_of [], OpDelete ''k'')]"
  have h1: "m_write_batch (run (begin_on []) ?ops) = [PutOp ''k'' ''a'', DeleteOp ''k'']"
    by (simp add: ev_defs)
  have h2: "m_write_buffer (run (begin_on []) ?ops) = [(''k'', Tombstone)]"
    by (simp add: ev_defs)
  from write_batch_mirrors_write_buffer [of "Some 0" "store_of []" ?ops]
  have "replay (m_write_batch (run (begin_on []) ?ops)) =
          map_of (m_write_buffer (run (begin_on []) ?ops))"
    by (simp add: begin_on_def)
  with h1 h2 show ?thesis by simp
qed

end
